theory Spec2Isabelle
  imports Main "HOL-Library.Multiset"
begin

section \<open>The Logger capability\<close>

text \<open>
  A Go call \<^verbatim>\<open>Log(keyvals ...interface{}) error\<close> either returns an error value
  (\<open>nil\<close> is \<open>None\<close>), panics with a value, or never comes back. The third case is
  kept as an outcome of its own, with the sink state as the call left it.
\<close>

datatype ('e, 'p) outcome =
    Returned "'e option"
  | Panicked 'p
  | NeverReturns

text \<open>
  \<^verbatim>\<open>log.Logger\<close> is an interface with the single method \<open>Log\<close>. A value of it is
  modelled by what a call does to the state \<open>'s\<close> of the sink behind it.
\<close>

type_synonym ('ev, 'e, 'p, 's) Logger = "'ev \<Rightarrow> 's \<Rightarrow> ('e, 'p) outcome \<times> 's"

definition terminated :: "('e, 'p) outcome \<Rightarrow> bool" where
  "terminated r = (case r of Returned _ \<Rightarrow> True | Panicked _ \<Rightarrow> True | NeverReturns \<Rightarrow> False)"

definition is_error :: "('e, 'p) outcome \<Rightarrow> bool" where
  "is_error r = (case r of Returned (Some E) \<Rightarrow> True | _ \<Rightarrow> False)"

section \<open>sync.Mutex\<close>

text \<open>
  The zero value of \<^verbatim>\<open>sync.Mutex\<close> is an unlocked mutex. \<open>Lock\<close> on a locked
  mutex does not proceed (\<open>None\<close>: the caller waits); \<open>Unlock\<close> on an unlocked mutex
  is the runtime's fatal error (\<open>None\<close>).
\<close>

datatype Mutex = Unlocked | Locked

fun Lock :: "Mutex \<Rightarrow> Mutex option" where
  "Lock Unlocked = Some Locked"
| "Lock Locked = None"

fun Unlock :: "Mutex \<Rightarrow> Mutex option" where
  "Unlock Locked = Some Unlocked"
| "Unlock Unlocked = None"

section \<open>serializedLogger\<close>

text \<open>
  \<^verbatim>\<open>
  type serializedLogger struct {
      mtx sync.Mutex
      log.Logger
  }
  \<close>
\<close>

record ('a, 'e, 'p, 's) serializedLogger =
  mtx :: Mutex
  Logger :: "('a list, 'e, 'p, 's) Logger"

text \<open>
  The only construction in the program is the composite literal
  \<^verbatim>\<open>&serializedLogger{Logger: logger}\<close> in \<open>main\<close>: the mutex is left at its zero
  value.
\<close>

definition new_serializedLogger ::
  "('a list, 'e, 'p, 's) Logger \<Rightarrow> ('a, 'e, 'p, 's) serializedLogger" where
  "new_serializedLogger logger = \<lparr>mtx = Unlocked, Logger = logger\<rparr>"

text \<open>
  \<^verbatim>\<open>
  func (l *serializedLogger) Log(keyvals ...interface{}) error {
      l.mtx.Lock()
      defer l.mtx.Unlock()
      return l.Logger.Log(keyvals...)
  }
  \<close>
  The receiver is a pointer, so the struct is passed in and handed back. The deferred
  \<open>Unlock\<close> runs when the wrapped call has returned and when it has panicked; it does
  not run while the wrapped call has not come back. The result \<open>None\<close> is the fatal
  error of unlocking an unlocked mutex. A call that waits at \<open>Lock\<close> for ever is the
  outcome \<open>NeverReturns\<close> with nothing changed.
\<close>

definition Log ::
  "('a, 'e, 'p, 's) serializedLogger \<Rightarrow> 'a list \<Rightarrow> 's \<Rightarrow>
     (('e, 'p) outcome \<times> ('a, 'e, 'p, 's) serializedLogger \<times> 's) option" where
  "Log l keyvals \<sigma> =
     (case Lock (mtx l) of
        None \<Rightarrow> Some (NeverReturns, l, \<sigma>)
      | Some m \<Rightarrow>
          (let l1 = l\<lparr>mtx := m\<rparr>;
               (r, \<sigma>') = Logger l1 keyvals \<sigma>
           in case r of
                NeverReturns \<Rightarrow> Some (NeverReturns, l1, \<sigma>')
              | _ \<Rightarrow>
                  (case Unlock (mtx l1) of
                     None \<Rightarrow> None
                   | Some m' \<Rightarrow> Some (r, l1\<lparr>mtx := m'\<rparr>, \<sigma>'))))"

text \<open>
  One caller that issues \<open>Log\<close> calls one after another, for as long as they come
  back (by return or by a panic the caller recovers from).
\<close>

fun Logs ::
  "('a, 'e, 'p, 's) serializedLogger \<Rightarrow> 'a list list \<Rightarrow> 's \<Rightarrow>
     (('e, 'p) outcome list \<times> ('a, 'e, 'p, 's) serializedLogger \<times> 's) option" where
  "Logs l [] \<sigma> = Some ([], l, \<sigma>)"
| "Logs l (keyvals # rest) \<sigma> =
     (case Log l keyvals \<sigma> of
        None \<Rightarrow> None
      | Some (r, l', \<sigma>') \<Rightarrow>
          (if terminated r
           then (case Logs l' rest \<sigma>' of
                   None \<Rightarrow> None
                 | Some (rs, l'', \<sigma>'') \<Rightarrow> Some (r # rs, l'', \<sigma>''))
           else Some ([r], l', \<sigma>')))"

section \<open>Concurrent callers of Log\<close>

text \<open>
  Several goroutines call \<open>Log\<close> on one \<^verbatim>\<open>*serializedLogger\<close>, each once. A
  goroutine stands at one of the statements of \<open>Log\<close>: before \<^verbatim>\<open>l.mtx.Lock()\<close>;
  holding the lock with the \<open>Unlock\<close> deferred, before the wrapped call; inside the
  wrapped call; inside a wrapped call that never comes back; after the wrapped call,
  before the deferred \<^verbatim>\<open>l.mtx.Unlock()\<close>; out of \<open>Log\<close> with its outcome; or stopped
  by the fatal error of \<open>Unlock\<close> on an unlocked mutex (the invariant below shows
  that no caller ever gets there).
\<close>

datatype ('e, 'p) pc =
    AtLock
  | AtCall
  | InCall
  | Hung
  | AtUnlock "('e, 'p) outcome"
  | Exited "('e, 'p) outcome"
  | Fatal

text \<open>
  What the wrapped Logger sees of a call: its beginning, with the caller's number and the
  arguments, and its end.
\<close>

datatype 'a obs = Enter nat "'a list" | Leave nat

record ('a, 'e, 'p, 's) system =
  shared :: "('a, 'e, 'p, 's) serializedLogger"
  sink :: 's
  callers :: "('a list \<times> ('e, 'p) pc) list"
  observed :: "'a obs list"

definition start ::
  "('a, 'e, 'p, 's) serializedLogger \<Rightarrow> 's \<Rightarrow> 'a list list \<Rightarrow> ('a, 'e, 'p, 's) system" where
  "start l \<sigma> args =
     \<lparr>shared = l, sink = \<sigma>, callers = map (\<lambda>keyvals. (keyvals, AtLock)) args, observed = []\<rparr>"

text \<open>
  One scheduling step of caller \<open>i\<close>: it executes the statement it stands at. A caller
  at \<open>Lock\<close> while the mutex is held, and a caller whose wrapped call never comes back,
  make no progress. The wrapped call takes two steps, its beginning and its end, so that
  other callers may be scheduled in between; its effect on the sink is taken at its end.
\<close>

definition step :: "nat \<Rightarrow> ('a, 'e, 'p, 's) system \<Rightarrow> ('a, 'e, 'p, 's) system" where
  "step i s =
     (if i < length (callers s) then
        (case callers s ! i of
           (keyvals, AtLock) \<Rightarrow>
             (case Lock (mtx (shared s)) of
                None \<Rightarrow> s
              | Some m \<Rightarrow>
                  s\<lparr>shared := (shared s)\<lparr>mtx := m\<rparr>,
                    callers := (callers s)[i := (keyvals, AtCall)]\<rparr>)
         | (keyvals, AtCall) \<Rightarrow>
             s\<lparr>callers := (callers s)[i := (keyvals, InCall)],
               observed := observed s @ [Enter i keyvals]\<rparr>
         | (keyvals, InCall) \<Rightarrow>
             (let (r, \<sigma>') = Logger (shared s) keyvals (sink s)
              in case r of
                   NeverReturns \<Rightarrow>
                     s\<lparr>sink := \<sigma>', callers := (callers s)[i := (keyvals, Hung)]\<rparr>
                 | _ \<Rightarrow>
                     s\<lparr>sink := \<sigma>', callers := (callers s)[i := (keyvals, AtUnlock r)],
                       observed := observed s @ [Leave i]\<rparr>)
         | (keyvals, Hung) \<Rightarrow> s
         | (keyvals, AtUnlock r) \<Rightarrow>
             (case Unlock (mtx (shared s)) of
                None \<Rightarrow> s\<lparr>callers := (callers s)[i := (keyvals, Fatal)]\<rparr>
              | Some m \<Rightarrow>
                  s\<lparr>shared := (shared s)\<lparr>mtx := m\<rparr>,
                    callers := (callers s)[i := (keyvals, Exited r)]\<rparr>)
         | (keyvals, Exited r) \<Rightarrow> s
         | (keyvals, Fatal) \<Rightarrow> s)
      else s)"

text \<open>A schedule is the list of callers in the order in which they take their steps.\<close>

definition run :: "nat list \<Rightarrow> ('a, 'e, 'p, 's) system \<Rightarrow> ('a, 'e, 'p, 's) system" where
  "run schedule s = fold step schedule s"

definition concurrent_Logs ::
  "('a list, 'e, 'p, 's) Logger \<Rightarrow> 's \<Rightarrow> 'a list list \<Rightarrow> nat list \<Rightarrow> ('a, 'e, 'p, 's) system" where
  "concurrent_Logs lg \<sigma> args schedule = run schedule (start (new_serializedLogger lg) \<sigma> args)"

text \<open>
  The schedule that lets the callers through one by one, each taking the four steps of
  its call in a row; and the wrapped Loggers every call of which comes back.
\<close>

definition one_by_one :: "nat \<Rightarrow> nat list" where
  "one_by_one n = concat (map (\<lambda>i. [i, i, i, i]) [0..<n])"

definition always_returns :: "('ev, 'e, 'p, 's) Logger \<Rightarrow> bool" where
  "always_returns lg = (\<forall>ev \<sigma>. terminated (fst (lg ev \<sigma>)))"

text \<open>
  Reading what the wrapped Logger saw. \<open>in_progress\<close> follows the calls through the
  record, \<open>cur\<close> being the caller whose call is open; it gives \<open>None\<close> when a call
  begins while another is open, or an end does not match the open call. A record is
  \<open>serialized\<close> when that never happens: no two calls overlap in time.
\<close>

fun in_progress :: "nat option \<Rightarrow> 'a obs list \<Rightarrow> nat option option" where
  "in_progress cur [] = Some cur"
| "in_progress None (Enter i a # rest) = in_progress (Some i) rest"
| "in_progress (Some j) (Enter i a # rest) = None"
| "in_progress (Some j) (Leave i # rest) = (if i = j then in_progress None rest else None)"
| "in_progress None (Leave i # rest) = None"

definition serialized :: "'a obs list \<Rightarrow> bool" where
  "serialized tr = (in_progress None tr \<noteq> None)"

fun calls :: "'a obs list \<Rightarrow> (nat \<times> 'a list) list" where
  "calls [] = []"
| "calls (Enter i a # rest) = (i, a) # calls rest"
| "calls (Leave i # rest) = calls rest"

fun holds_lock :: "('e, 'p) pc \<Rightarrow> bool" where
  "holds_lock AtCall = True"
| "holds_lock InCall = True"
| "holds_lock Hung = True"
| "holds_lock (AtUnlock r) = True"
| "holds_lock _ = False"

fun inside :: "('e, 'p) pc \<Rightarrow> bool" where
  "inside InCall = True"
| "inside Hung = True"
| "inside _ = False"

fun has_called :: "('e, 'p) pc \<Rightarrow> bool" where
  "has_called InCall = True"
| "has_called Hung = True"
| "has_called (AtUnlock r) = True"
| "has_called (Exited r) = True"
| "has_called _ = False"

fun has_exited :: "('e, 'p) pc \<Rightarrow> bool" where
  "has_exited (Exited r) = True"
| "has_exited _ = False"

definition pc_of :: "('a, 'e, 'p, 's) system \<Rightarrow> nat \<Rightarrow> ('e, 'p) pc" where
  "pc_of s i = snd (callers s ! i)"

definition all_exited :: "('a, 'e, 'p, 's) system \<Rightarrow> bool" where
  "all_exited s = list_all (\<lambda>c. has_exited (snd c)) (callers s)"

text \<open>
  The invariant of the system: the wrapped Logger and the callers' arguments never
  change; at most one caller is between \<open>Lock\<close> and \<open>Unlock\<close>, and the mutex is locked
  exactly when there is one; no caller has met the fatal error; the record of the wrapped
  Logger is serialized, with a call open exactly when a caller is inside the wrapped call;
  and the calls recorded are those of the callers that have passed the beginning of the
  wrapped call, one each, with their own arguments.
\<close>

definition inv ::
  "('a list, 'e, 'p, 's) Logger \<Rightarrow> 'a list list \<Rightarrow> ('a, 'e, 'p, 's) system \<Rightarrow> bool" where
  "inv lg args s \<longleftrightarrow>
     Logger (shared s) = lg \<and>
     map fst (callers s) = args \<and>
     (\<forall>i j. i < length args \<and> j < length args \<and> holds_lock (pc_of s i) \<and> holds_lock (pc_of s j)
        \<longrightarrow> i = j) \<and>
     (mtx (shared s) = Locked \<longleftrightarrow> (\<exists>i < length args. holds_lock (pc_of s i))) \<and>
     (\<forall>i < length args. pc_of s i \<noteq> Fatal) \<and>
     (\<exists>c. in_progress None (observed s) = Some c \<and>
          (\<forall>i. c = Some i \<longleftrightarrow> i < length args \<and> inside (pc_of s i))) \<and>
     distinct (map fst (calls (observed s))) \<and>
     (\<forall>i a. (i, a) \<in> set (calls (observed s)) \<longleftrightarrow>
        i < length args \<and> has_called (pc_of s i) \<and> a = args ! i)"

section \<open>The level package\<close>

text \<open>
  Modelled from the spec: the Level type of package \<open>level\<close>, whose source is not among
  the files (only the package comment \<^verbatim>\<open>log/level/doc.go\<close> is). A Level is one of
  \<open>debug\<close>, \<open>info\<close>, \<open>warn\<close>, \<open>error\<close>.
\<close>

datatype Level = debug | info | warn | error

text \<open>
  Modelled from the spec: \<open>Rank(level) -> integer\<close>, giving \<open>debug=0, info=1, warn=2,
  error=3\<close>. The function is not among the files.
\<close>

fun Rank :: "Level \<Rightarrow> int" where
  "Rank debug = 0"
| "Rank info = 1"
| "Rank warn = 2"
| "Rank error = 3"

text \<open>
  Modelled from the spec: \<open>Compare(a, b) -> {less, equal, greater}\<close>, which is not among
  the files; it compares by rank.
\<close>

datatype Ordering = Less | Equal | Greater

definition Compare :: "Level \<Rightarrow> Level \<Rightarrow> Ordering" where
  "Compare a b = (if Rank a < Rank b then Less else if Rank a = Rank b then Equal else Greater)"

text \<open>
  Modelled from the spec: the total order \<open>debug < info < warn < error\<close> of the data
  model, written out pair by pair.
\<close>

fun below :: "Level \<Rightarrow> Level \<Rightarrow> bool" where
  "below debug b = (b = info \<or> b = warn \<or> b = error)"
| "below info b = (b = warn \<or> b = error)"
| "below warn b = (b = error)"
| "below error b = False"

text \<open>
  Modelled from the spec: a LogEvent, an ordered sequence of key/value pairs whose keys
  need not be unique, and the reserved key that carries the Level. The package's own
  representation is not among the files. A value is a Level or anything else.
\<close>

datatype 'v Value = LevelValue Level | Other 'v

type_synonym 'v LogEvent = "(string \<times> 'v Value) list"

definition levelKey :: string where
  "levelKey = ''level''"

definition severity_pairs :: "'v LogEvent \<Rightarrow> 'v LogEvent" where
  "severity_pairs event = filter (\<lambda>kv. fst kv = levelKey) event"

text \<open>
  Modelled from the spec: the Level Tagger \<open>Tag(level, logger) -> Logger\<close>, which is not
  among the files: its \<open>Log(event)\<close> appends the pair \<open>(levelKey, level)\<close> to the end of
  the event and forwards the extended event to the wrapped Logger, returning whatever the
  wrapped Logger returns.
\<close>

definition Tag ::
  "Level \<Rightarrow> ('v LogEvent, 'e, 'p, 's) Logger \<Rightarrow> ('v LogEvent, 'e, 'p, 's) Logger" where
  "Tag level logger event = logger (event @ [(levelKey, LevelValue level)])"

text \<open>
  Modelled from the spec: the four convenience constructors \<open>Debug\<close>, \<open>Info\<close>, \<open>Warn\<close>
  and \<open>Error\<close>, one per Level, named in the package comment and not among the files.
\<close>

definition Debug :: "('v LogEvent, 'e, 'p, 's) Logger \<Rightarrow> ('v LogEvent, 'e, 'p, 's) Logger" where
  "Debug logger event = logger (event @ [(levelKey, LevelValue debug)])"

definition Info :: "('v LogEvent, 'e, 'p, 's) Logger \<Rightarrow> ('v LogEvent, 'e, 'p, 's) Logger" where
  "Info logger event = logger (event @ [(levelKey, LevelValue info)])"

definition Warn :: "('v LogEvent, 'e, 'p, 's) Logger \<Rightarrow> ('v LogEvent, 'e, 'p, 's) Logger" where
  "Warn logger event = logger (event @ [(levelKey, LevelValue warn)])"

definition Error :: "('v LogEvent, 'e, 'p, 's) Logger \<Rightarrow> ('v LogEvent, 'e, 'p, 's) Logger" where
  "Error logger event = logger (event @ [(levelKey, LevelValue error)])"

text \<open>
  Modelled from the spec: the missing-annotation policy and the error taxonomy of the
  Level Filter, which are not among the files. A policy violation is an error kind of its
  own, apart from every error of the sink.
\<close>

datatype Policy = SquelchSilently | PassThrough | TreatAsError

datatype 'e LogError = SinkError 'e | PolicyViolation

text \<open>
  Modelled from the spec: the Level Filter and its construction (\<open>NewFilter\<close> in the
  package comment), which are not among the files. Construction takes the Logger to wrap,
  a minimum-allowed Level and a missing-annotation policy, by default \<open>SquelchSilently\<close>.
\<close>

record ('v, 'e, 'p, 's) Filter =
  wrapped :: "('v LogEvent, 'e LogError, 'p, 's) Logger"
  threshold :: Level
  missing :: Policy

definition NewFilter ::
  "('v LogEvent, 'e LogError, 'p, 's) Logger \<Rightarrow> Level \<Rightarrow> Policy option \<Rightarrow>
     ('v, 'e, 'p, 's) Filter" where
  "NewFilter logger minimum policy =
     \<lparr>wrapped = logger, threshold = minimum,
      missing = (case policy of None \<Rightarrow> SquelchSilently | Some p \<Rightarrow> p)\<rparr>"

text \<open>
  Modelled from the spec: step 1 of the Filter's algorithm, the scan of the event for the
  last occurrence of the reserved severity key. The scan runs over the pairs in order and
  keeps the value of the latest occurrence met.
\<close>

fun scan :: "'v Value option \<Rightarrow> 'v LogEvent \<Rightarrow> 'v Value option" where
  "scan found [] = found"
| "scan found ((k, v) # rest) = scan (if k = levelKey then Some v else found) rest"

definition last_severity :: "'v LogEvent \<Rightarrow> 'v Value option" where
  "last_severity event = scan None event"

text \<open>
  Modelled from the spec: steps 2 and 3 of the Filter's algorithm. With a last severity
  \<open>L\<close> the event is forwarded when \<open>Rank(L) >= Rank(threshold)\<close> and dropped otherwise;
  without one the policy decides. A reserved key whose value is not a Level counts as a
  missing annotation, as the spec proposes for that open question.
\<close>

datatype Decision = Forward | Drop | Violation

definition decide :: "Level \<Rightarrow> Policy \<Rightarrow> 'v LogEvent \<Rightarrow> Decision" where
  "decide minimum policy event =
     (case last_severity event of
        Some (LevelValue L) \<Rightarrow> if Rank L \<ge> Rank minimum then Forward else Drop
      | _ \<Rightarrow>
          (case policy of
             SquelchSilently \<Rightarrow> Drop
           | PassThrough \<Rightarrow> Forward
           | TreatAsError \<Rightarrow> Violation))"

text \<open>
  Modelled from the spec: the Filter's \<open>Log(event)\<close>, which is not among the files. A
  forwarded event goes to the wrapped Logger as it is and the wrapped Logger's result is
  returned; a dropped event returns success; a violation returns the policy-violation
  error without a call of the wrapped Logger.
\<close>

definition Filter_Log ::
  "('v, 'e, 'p, 's) Filter \<Rightarrow> ('v LogEvent, 'e LogError, 'p, 's) Logger" where
  "Filter_Log f event \<sigma> =
     (case decide (threshold f) (missing f) event of
        Forward \<Rightarrow> wrapped f event \<sigma>
      | Drop \<Rightarrow> (Returned None, \<sigma>)
      | Violation \<Rightarrow> (Returned (Some PolicyViolation), \<sigma>))"

section \<open>Test doubles\<close>

text \<open>
  A recording double of a Logger: it notes the argument of every call it receives, in
  order, and then behaves as the Logger it stands for. The notes are how a theorem
  counts the calls a wrapper makes and reads the arguments it passes.
\<close>

definition spy :: "('ev, 'e, 'p, 's) Logger \<Rightarrow> ('ev, 'e, 'p, 'ev list \<times> 's) Logger" where
  "spy lg ev = (\<lambda>(tr, \<sigma>). let (r, \<sigma>') = lg ev \<sigma> in (r, (tr @ [ev], \<sigma>')))"

text \<open>
  Sinks for the examples: one that appends the event to a plain buffer and succeeds, one
  that fails with a given error, one that panics and one that never comes back.
\<close>

type_synonym 's string_Logger = "(string list, string, string, 's) Logger"

definition buffer_sink :: "('ev, 'e, 'p, 'ev list) Logger" where
  "buffer_sink ev buf = (Returned None, buf @ [ev])"

definition failing_sink :: "'e \<Rightarrow> ('ev, 'e, 'p, 's) Logger" where
  "failing_sink E ev \<sigma> = (Returned (Some E), \<sigma>)"

definition panicking_sink :: "'p \<Rightarrow> ('ev, 'e, 'p, 's) Logger" where
  "panicking_sink p ev \<sigma> = (Panicked p, \<sigma>)"

definition hanging_sink :: "('ev, 'e, 'p, 's) Logger" where
  "hanging_sink ev \<sigma> = (NeverReturns, \<sigma>)"

section \<open>Sequential behaviour of serializedLogger\<close>

lemma Log_unlocked:
  "mtx l = Unlocked \<Longrightarrow>
   Log l keyvals \<sigma> =
     Some (fst (Logger l keyvals \<sigma>),
           l\<lparr>mtx := (if terminated (fst (Logger l keyvals \<sigma>)) then Unlocked else Locked)\<rparr>,
           snd (Logger l keyvals \<sigma>))"
  by (cases "Logger l keyvals \<sigma>")
     (simp add: Log_def terminated_def split: outcome.splits)

lemma Log_locked:
  "mtx l = Locked \<Longrightarrow> Log l keyvals \<sigma> = Some (NeverReturns, l, \<sigma>)"
  by (simp add: Log_def)

lemma spy_apply:
  "spy lg ev (tr, \<sigma>) = (fst (lg ev \<sigma>), (tr @ [ev], snd (lg ev \<sigma>)))"
  by (simp add: spy_def split: prod.splits)

lemma Logs_invariant:
  "mtx l = Unlocked \<Longrightarrow>
   \<exists>rs l' \<sigma>'. Logs l evs \<sigma> = Some (rs, l', \<sigma>') \<and> Logger l' = Logger l \<and>
      (list_all terminated rs \<longrightarrow> mtx l' = Unlocked \<and> length rs = length evs)"
proof (induction evs arbitrary: l \<sigma>)
  case Nil
  then show ?case by simp
next
  case (Cons kv evs)
  let ?r = "fst (Logger l kv \<sigma>)"
  let ?s = "snd (Logger l kv \<sigma>)"
  show ?case
  proof (cases "terminated ?r")
    case True
    let ?l1 = "l\<lparr>mtx := Unlocked\<rparr>"
    from Cons.IH [of ?l1 ?s] obtain rs l' \<sigma>' where
      "Logs ?l1 evs ?s = Some (rs, l', \<sigma>')" "Logger l' = Logger ?l1"
      "list_all terminated rs \<longrightarrow> mtx l' = Unlocked \<and> length rs = length evs"
      by auto
    with True Cons.prems show ?thesis
      by (simp add: Log_unlocked)
  next
    case False
    with Cons.prems show ?thesis
      by (simp add: Log_unlocked)
  qed
qed

section \<open>Concurrent callers: the invariant\<close>

lemma in_progress_snoc:
  "in_progress c (tr @ [x]) =
     (case in_progress c tr of None \<Rightarrow> None | Some c' \<Rightarrow> in_progress c' [x])"
  by (induction c tr rule: in_progress.induct) auto

lemma calls_snoc_Enter: "calls (tr @ [Enter i a]) = calls tr @ [(i, a)]"
  by (induction tr rule: calls.induct) auto

lemma calls_snoc_Leave: "calls (tr @ [Leave i]) = calls tr"
  by (induction tr rule: calls.induct) auto

lemma inside_holds_lock: "inside p \<Longrightarrow> holds_lock p"
  by (cases p) simp_all

lemma has_exited_called: "has_exited p \<Longrightarrow> has_called p \<and> \<not> inside p"
  by (cases p) simp_all

lemma map_fst_update:
  "i < length xs \<Longrightarrow> fst (xs ! i) = kv \<Longrightarrow> map fst (xs[i := (kv, q)]) = map fst xs"
  by (simp add: map_update list_update_same_conv)

lemma invI:
  assumes "Logger (shared s) = lg"
    and "map fst (callers s) = args"
    and "\<And>a b. a < length args \<Longrightarrow> b < length args \<Longrightarrow>
           holds_lock (pc_of s a) \<Longrightarrow> holds_lock (pc_of s b) \<Longrightarrow> a = b"
    and "(mtx (shared s) = Locked) = (\<exists>j<length args. holds_lock (pc_of s j))"
    and "\<And>j. j < length args \<Longrightarrow> pc_of s j \<noteq> Fatal"
    and "in_progress None (observed s) = Some c"
    and "\<And>j. (c = Some j) = (j < length args \<and> inside (pc_of s j))"
    and "distinct (map fst (calls (observed s)))"
    and "\<And>j a. ((j, a) \<in> set (calls (observed s))) =
           (j < length args \<and> has_called (pc_of s j) \<and> a = args ! j)"
  shows "inv lg args s"
  unfolding inv_def using assms by blast

lemma invD:
  assumes "inv lg args s"
  shows "Logger (shared s) = lg"
    and "map fst (callers s) = args"
    and "length (callers s) = length args"
    and "a < length args \<Longrightarrow> b < length args \<Longrightarrow>
           holds_lock (pc_of s a) \<Longrightarrow> holds_lock (pc_of s b) \<Longrightarrow> a = b"
    and "(mtx (shared s) = Locked) = (\<exists>j<length args. holds_lock (pc_of s j))"
    and "j < length args \<Longrightarrow> pc_of s j \<noteq> Fatal"
    and "\<exists>c. in_progress None (observed s) = Some c \<and>
           (\<forall>j. (c = Some j) = (j < length args \<and> inside (pc_of s j)))"
    and "distinct (map fst (calls (observed s)))"
    and "((j, x) \<in> set (calls (observed s))) =
           (j < length args \<and> has_called (pc_of s j) \<and> x = args ! j)"
proof -
  show "map fst (callers s) = args" using assms unfolding inv_def by blast
  then show "length (callers s) = length args" by (metis length_map)
qed (use assms in \<open>unfold inv_def, blast\<close>)+

lemma inv_start: "inv lg args (start (new_serializedLogger lg) \<sigma> args)"
  by (rule invI [where c = None])
     (auto simp: start_def new_serializedLogger_def pc_of_def comp_def)

lemma caller_facts:
  assumes "inv lg args s" and "i < length args" and "callers s ! i = (kv, p)"
  shows "kv = args ! i" and "pc_of s i = p" and "i < length (callers s)"
    and "map fst ((callers s)[i := (kv, q)]) = args"
proof -
  note D = invD [OF assms(1)]
  show i: "i < length (callers s)" using assms(2) D(3) by simp
  have "args ! i = fst (callers s ! i)" using i D(2) by (metis nth_map)
  then show "kv = args ! i" using assms(3) by simp
  show "pc_of s i = p" using assms(3) by (simp add: pc_of_def)
  show "map fst ((callers s)[i := (kv, q)]) = args"
    using i assms(3) D(2) by (simp add: map_fst_update)
qed

lemma idle_when_nobody_inside:
  assumes "inv lg args s" and "\<And>j. j < length args \<Longrightarrow> \<not> inside (pc_of s j)"
  shows "in_progress None (observed s) = Some None"
proof -
  from invD(7) [OF assms(1)] obtain c where
    c: "in_progress None (observed s) = Some c"
       "\<And>j. (c = Some j) = (j < length args \<and> inside (pc_of s j))" by blast
  have "c = None"
  proof (cases c)
    case (Some j)
    with c(2) [of j] assms(2) [of j] show ?thesis by simp
  qed simp
  with c(1) show ?thesis by simp
qed

text \<open>Taking the lock: possible only when nobody holds it.\<close>

lemma inv_step_AtLock:
  assumes I: "inv lg args s" and i: "i < length args" and ip: "callers s ! i = (kv, AtLock)"
  shows "inv lg args (step i s)"
proof (cases "mtx (shared s)")
  case Locked
  with i ip I invD(3) [OF I] show ?thesis by (simp add: step_def)
next
  case Unlocked
  note D = invD [OF I] and E = caller_facts [OF I i ip]
  have st: "step i s = s\<lparr>shared := (shared s)\<lparr>mtx := Locked\<rparr>,
                callers := (callers s)[i := (kv, AtCall)]\<rparr>"
    using E(3) ip Unlocked by (simp add: step_def)
  have pcs: "\<And>j. j < length args \<Longrightarrow> pc_of (step i s) j = (if j = i then AtCall else pc_of s j)"
    using D(3) by (simp add: st pc_of_def)
  have ob: "observed (step i s) = observed s" by (simp add: st)
  have mt: "mtx (shared (step i s)) = Locked" by (simp add: st)
  have nobody: "\<And>j. j < length args \<Longrightarrow> \<not> holds_lock (pc_of s j)"
    using D(5) Unlocked by auto
  have noin: "\<And>j. j < length args \<Longrightarrow> \<not> inside (pc_of s j)"
    using nobody inside_holds_lock by blast
  have hc: "\<And>j. j < length args \<Longrightarrow> has_called (pc_of (step i s) j) = has_called (pc_of s j)"
    using E(2) by (simp add: pcs)
  show ?thesis
  proof (rule invI [where c = None])
    show "Logger (shared (step i s)) = lg" using D(1) by (simp add: st)
    show "map fst (callers (step i s)) = args" using E(4) by (simp add: st)
    show "a = b" if "a < length args" "b < length args"
        "holds_lock (pc_of (step i s) a)" "holds_lock (pc_of (step i s) b)" for a b
      using that nobody by (simp add: pcs split: if_splits)
    show "(mtx (shared (step i s)) = Locked) = (\<exists>j<length args. holds_lock (pc_of (step i s) j))"
    proof -
      have "holds_lock (pc_of (step i s) i)" using i by (simp add: pcs)
      with i mt show ?thesis by auto
    qed
    show "pc_of (step i s) j \<noteq> Fatal" if "j < length args" for j
      using that D(6) [of j] by (simp add: pcs)
    show "in_progress None (observed (step i s)) = Some None"
      using idle_when_nobody_inside [OF I noin] by (simp add: ob)
    show "(None = Some j) = (j < length args \<and> inside (pc_of (step i s) j))" for j
      using noin [of j] by (cases "j < length args") (simp_all add: pcs)
    show "distinct (map fst (calls (observed (step i s))))" using D(8) by (simp add: ob)
    show "((j, a) \<in> set (calls (observed (step i s)))) =
            (j < length args \<and> has_called (pc_of (step i s) j) \<and> a = args ! j)" for j a
      using D(9) [of j a] hc [of j] by (auto simp: ob)
  qed
qed

text \<open>Beginning the wrapped call: the caller holds the lock, so no call is open.\<close>

lemma inv_step_AtCall:
  assumes I: "inv lg args s" and i: "i < length args" and ip: "callers s ! i = (kv, AtCall)"
  shows "inv lg args (step i s)"
proof -
  note D = invD [OF I] and E = caller_facts [OF I i ip]
  have st: "step i s = s\<lparr>callers := (callers s)[i := (kv, InCall)],
             observed := observed s @ [Enter i kv]\<rparr>"
    using E(3) ip by (simp add: step_def)
  have pcs: "\<And>j. j < length args \<Longrightarrow> pc_of (step i s) j = (if j = i then InCall else pc_of s j)"
    using D(3) by (simp add: st pc_of_def)
  have ob: "observed (step i s) = observed s @ [Enter i kv]" by (simp add: st)
  have mt: "mtx (shared (step i s)) = mtx (shared s)" by (simp add: st)
  have only: "\<And>j. j < length args \<Longrightarrow> holds_lock (pc_of s j) \<Longrightarrow> j = i"
    using D(4) [OF _ i] E(2) by simp
  have noin: "\<And>j. j < length args \<Longrightarrow> \<not> inside (pc_of s j)"
  proof
    fix j assume j: "j < length args" "inside (pc_of s j)"
    with only [of j] have "j = i" by (simp add: inside_holds_lock)
    with j(2) E(2) show False by simp
  qed
  have fresh: "i \<notin> fst ` set (calls (observed s))"
    using D(9) [of i] E(2) by auto
  show ?thesis
  proof (rule invI [where c = "Some i"])
    show "Logger (shared (step i s)) = lg" using D(1) by (simp add: st)
    show "map fst (callers (step i s)) = args" using E(4) by (simp add: st)
    show "a = b" if "a < length args" "b < length args"
        "holds_lock (pc_of (step i s) a)" "holds_lock (pc_of (step i s) b)" for a b
      using that only [of a] only [of b] by (simp add: pcs split: if_splits)
    show "(mtx (shared (step i s)) = Locked) = (\<exists>j<length args. holds_lock (pc_of (step i s) j))"
    proof -
      have "holds_lock (pc_of (step i s) i)" using i by (simp add: pcs)
      moreover have "mtx (shared s) = Locked" using D(5) i E(2) by auto
      ultimately show ?thesis using i mt by auto
    qed
    show "pc_of (step i s) j \<noteq> Fatal" if "j < length args" for j
      using that D(6) [of j] by (simp add: pcs)
    show "in_progress None (observed (step i s)) = Some (Some i)"
      using idle_when_nobody_inside [OF I noin] by (simp add: ob in_progress_snoc)
    show "(Some i = Some j) = (j < length args \<and> inside (pc_of (step i s) j))" for j
      using noin [of j] i by (cases "j < length args") (auto simp: pcs)
    show "distinct (map fst (calls (observed (step i s))))"
      using D(8) fresh by (simp add: ob calls_snoc_Enter)
    show "((j, a) \<in> set (calls (observed (step i s)))) =
            (j < length args \<and> has_called (pc_of (step i s) j) \<and> a = args ! j)" for j a
    proof (cases "j = i")
      case True
      then show ?thesis
        using i E(1) D(9) [of i a] E(2) by (auto simp: ob calls_snoc_Enter pcs)
    next
      case False
      then show ?thesis
        using D(9) [of j a] by (auto simp: ob calls_snoc_Enter pcs)
    qed
  qed
qed

text \<open>The end of the wrapped call, or the discovery that it never comes back.\<close>

lemma inv_step_InCall:
  assumes I: "inv lg args s" and i: "i < length args" and ip: "callers s ! i = (kv, InCall)"
  shows "inv lg args (step i s)"
proof -
  note D = invD [OF I] and E = caller_facts [OF I i ip]
  obtain r \<sigma>' where call: "Logger (shared s) kv (sink s) = (r, \<sigma>')"
    by (cases "Logger (shared s) kv (sink s)")
  have only: "\<And>j. j < length args \<Longrightarrow> holds_lock (pc_of s j) \<Longrightarrow> j = i"
    using D(4) [OF _ i] E(2) by simp
  have locked: "mtx (shared s) = Locked" using D(5) i E(2) by auto
  from D(7) obtain c where c: "in_progress None (observed s) = Some c"
      "\<And>j. (c = Some j) = (j < length args \<and> inside (pc_of s j))" by blast
  have cur: "in_progress None (observed s) = Some (Some i)"
    using c(1) c(2) [of i] i E(2) by simp
  show ?thesis
  proof (cases "terminated r")
    case False
    then have r: "r = NeverReturns" by (cases r) (simp_all add: terminated_def)
    have st: "step i s = s\<lparr>sink := \<sigma>', callers := (callers s)[i := (kv, Hung)]\<rparr>"
      using E(3) ip call r by (simp add: step_def)
    have pcs: "\<And>j. j < length args \<Longrightarrow> pc_of (step i s) j = (if j = i then Hung else pc_of s j)"
      using D(3) by (simp add: st pc_of_def)
    have ob: "observed (step i s) = observed s" by (simp add: st)
    have mt: "mtx (shared (step i s)) = mtx (shared s)" by (simp add: st)
    show ?thesis
    proof (rule invI [where c = "Some i"])
      show "Logger (shared (step i s)) = lg" using D(1) by (simp add: st)
      show "map fst (callers (step i s)) = args" using E(4) by (simp add: st)
      show "a = b" if "a < length args" "b < length args"
          "holds_lock (pc_of (step i s) a)" "holds_lock (pc_of (step i s) b)" for a b
        using that only [of a] only [of b] by (simp add: pcs split: if_splits)
      show "(mtx (shared (step i s)) = Locked) = (\<exists>j<length args. holds_lock (pc_of (step i s) j))"
      proof -
        have "holds_lock (pc_of (step i s) i)" using i by (simp add: pcs)
        then show ?thesis using i mt locked by auto
      qed
      show "pc_of (step i s) j \<noteq> Fatal" if "j < length args" for j
        using that D(6) [of j] by (simp add: pcs)
      show "in_progress None (observed (step i s)) = Some (Some i)"
        using cur by (simp add: ob)
      show "(Some i = Some j) = (j < length args \<and> inside (pc_of (step i s) j))" for j
        using c(2) [of j] cur c(1) i by (cases "j < length args") (auto simp: pcs)
      show "distinct (map fst (calls (observed (step i s))))" using D(8) by (simp add: ob)
      show "((j, a) \<in> set (calls (observed (step i s)))) =
              (j < length args \<and> has_called (pc_of (step i s) j) \<and> a = args ! j)" for j a
        using D(9) [of j a] E(2) by (cases "j < length args") (auto simp: ob pcs)
    qed
  next
    case True
    have st: "step i s = s\<lparr>sink := \<sigma>', callers := (callers s)[i := (kv, AtUnlock r)],
                     observed := observed s @ [Leave i]\<rparr>"
      using E(3) ip call True by (cases r) (simp_all add: step_def terminated_def)
    have pcs: "\<And>j. j < length args \<Longrightarrow>
                 pc_of (step i s) j = (if j = i then AtUnlock r else pc_of s j)"
      using D(3) by (simp add: st pc_of_def)
    have ob: "observed (step i s) = observed s @ [Leave i]" by (simp add: st)
    have mt: "mtx (shared (step i s)) = mtx (shared s)" by (simp add: st)
    have noin: "\<And>j. j < length args \<Longrightarrow> j \<noteq> i \<Longrightarrow> \<not> inside (pc_of s j)"
      using only inside_holds_lock by blast
    show ?thesis
    proof (rule invI [where c = None])
      show "Logger (shared (step i s)) = lg" using D(1) by (simp add: st)
      show "map fst (callers (step i s)) = args" using E(4) by (simp add: st)
      show "a = b" if "a < length args" "b < length args"
          "holds_lock (pc_of (step i s) a)" "holds_lock (pc_of (step i s) b)" for a b
        using that only [of a] only [of b] by (simp add: pcs split: if_splits)
      show "(mtx (shared (step i s)) = Locked) = (\<exists>j<length args. holds_lock (pc_of (step i s) j))"
      proof -
        have "holds_lock (pc_of (step i s) i)" using i by (simp add: pcs)
        then show ?thesis using i mt locked by auto
      qed
      show "pc_of (step i s) j \<noteq> Fatal" if "j < length args" for j
        using that D(6) [of j] by (simp add: pcs)
      show "in_progress None (observed (step i s)) = Some None"
        using cur by (simp add: ob in_progress_snoc)
      show "(None = Some j) = (j < length args \<and> inside (pc_of (step i s) j))" for j
        using noin [of j] by (cases "j < length args") (auto simp: pcs)
      show "distinct (map fst (calls (observed (step i s))))"
        using D(8) by (simp add: ob calls_snoc_Leave)
      show "((j, a) \<in> set (calls (observed (step i s)))) =
              (j < length args \<and> has_called (pc_of (step i s) j) \<and> a = args ! j)" for j a
        using D(9) [of j a] E(2)
        by (cases "j < length args") (auto simp: ob pcs calls_snoc_Leave)
    qed
  qed
qed

text \<open>The deferred unlock: the caller is the one that holds the lock, so it is locked.\<close>

lemma inv_step_AtUnlock:
  assumes I: "inv lg args s" and i: "i < length args" and ip: "callers s ! i = (kv, AtUnlock r)"
  shows "inv lg args (step i s)"
proof -
  note D = invD [OF I] and E = caller_facts [OF I i ip]
  have only: "\<And>j. j < length args \<Longrightarrow> holds_lock (pc_of s j) \<Longrightarrow> j = i"
    using D(4) [OF _ i] E(2) by simp
  have locked: "mtx (shared s) = Locked" using D(5) i E(2) by auto
  have st: "step i s = s\<lparr>shared := (shared s)\<lparr>mtx := Unlocked\<rparr>,
                  callers := (callers s)[i := (kv, Exited r)]\<rparr>"
    using E(3) ip locked by (simp add: step_def)
  have pcs: "\<And>j. j < length args \<Longrightarrow> pc_of (step i s) j = (if j = i then Exited r else pc_of s j)"
    using D(3) by (simp add: st pc_of_def)
  have ob: "observed (step i s) = observed s" by (simp add: st)
  have mt: "mtx (shared (step i s)) = Unlocked" by (simp add: st)
  have noin: "\<And>j. j < length args \<Longrightarrow> \<not> inside (pc_of s j)"
  proof
    fix j assume j: "j < length args" "inside (pc_of s j)"
    with only [of j] have "j = i" by (simp add: inside_holds_lock)
    with j(2) E(2) show False by simp
  qed
  show ?thesis
  proof (rule invI [where c = None])
    show "Logger (shared (step i s)) = lg" using D(1) by (simp add: st)
    show "map fst (callers (step i s)) = args" using E(4) by (simp add: st)
    show "a = b" if "a < length args" "b < length args"
        "holds_lock (pc_of (step i s) a)" "holds_lock (pc_of (step i s) b)" for a b
      using that only [of a] only [of b] by (simp add: pcs split: if_splits)
    show "(mtx (shared (step i s)) = Locked) = (\<exists>j<length args. holds_lock (pc_of (step i s) j))"
    proof -
      have "\<not> holds_lock (pc_of (step i s) j)" if "j < length args" for j
        using that only [of j] by (auto simp: pcs)
      then show ?thesis using mt by auto
    qed
    show "pc_of (step i s) j \<noteq> Fatal" if "j < length args" for j
      using that D(6) [of j] by (simp add: pcs)
    show "in_progress None (observed (step i s)) = Some None"
      using idle_when_nobody_inside [OF I noin] by (simp add: ob)
    show "(None = Some j) = (j < length args \<and> inside (pc_of (step i s) j))" for j
      using noin [of j] by (cases "j < length args") (auto simp: pcs)
    show "distinct (map fst (calls (observed (step i s))))" using D(8) by (simp add: ob)
    show "((j, a) \<in> set (calls (observed (step i s)))) =
            (j < length args \<and> has_called (pc_of (step i s) j) \<and> a = args ! j)" for j a
      using D(9) [of j a] E(2) by (cases "j < length args") (auto simp: ob pcs)
  qed
qed

lemma inv_step:
  assumes I: "inv lg args s"
  shows "inv lg args (step i s)"
proof (cases "i < length args")
  case False
  with I invD(3) [OF I] show ?thesis by (simp add: step_def)
next
  case True
  obtain kv p where ip: "callers s ! i = (kv, p)" by (cases "callers s ! i")
  have len: "i < length (callers s)" using True invD(3) [OF I] by simp
  show ?thesis
  proof (cases p)
    case AtLock
    with I True ip show ?thesis by (simp add: inv_step_AtLock)
  next
    case AtCall
    with I True ip show ?thesis by (simp add: inv_step_AtCall)
  next
    case InCall
    with I True ip show ?thesis by (simp add: inv_step_InCall)
  next
    case Hung
    with I len ip show ?thesis by (simp add: step_def)
  next
    case (AtUnlock r)
    with I True ip show ?thesis by (simp add: inv_step_AtUnlock)
  next
    case (Exited r)
    with I len ip show ?thesis by (simp add: step_def)
  next
    case Fatal
    with I len ip show ?thesis by (simp add: step_def)
  qed
qed

lemma inv_run: "inv lg args s \<Longrightarrow> inv lg args (run schedule s)"
  unfolding run_def
  by (induction schedule arbitrary: s) (simp_all add: inv_step)

lemma inv_concurrent_Logs: "inv lg args (concurrent_Logs lg \<sigma> args schedule)"
  by (simp add: concurrent_Logs_def inv_run inv_start)

lemma all_exited_pc:
  "all_exited s \<Longrightarrow> i < length (callers s) \<Longrightarrow> has_exited (pc_of s i)"
  by (simp add: all_exited_def pc_of_def list_all_length)

lemma inv_all_exited:
  assumes I: "inv lg args s" and "all_exited s"
  shows "in_progress None (observed s) = Some None"
    and "mset (map snd (calls (observed s))) = mset args"
proof -
  let ?c = "calls (observed s)"
  note D = invD [OF I]
  have ex: "\<And>i. i < length args \<Longrightarrow> has_exited (pc_of s i)"
    using assms(2) D(3) by (simp add: all_exited_pc)
  have "\<And>j. j < length args \<Longrightarrow> \<not> inside (pc_of s j)"
    using ex has_exited_called by blast
  then show "in_progress None (observed s) = Some None"
    by (rule idle_when_nobody_inside [OF I])
  have "fst ` set ?c = {..<length args}"
  proof (intro set_eqI iffI)
    fix j assume "j \<in> fst ` set ?c"
    then obtain a where "(j, a) \<in> set ?c" by auto
    then show "j \<in> {..<length args}" using D(9) [of j a] by simp
  next
    fix j assume "j \<in> {..<length args}"
    then have "(j, args ! j) \<in> set ?c"
      using D(9) [of j "args ! j"] ex [of j] has_exited_called [of "pc_of s j"] by simp
    then show "j \<in> fst ` set ?c" by force
  qed
  then have "set (map fst ?c) = set [0..<length args]" by (simp add: atLeast_upt)
  then have ids: "mset (map fst ?c) = mset [0..<length args]"
    using D(8) distinct_upt [of 0 "length args"] set_eq_iff_mset_eq_distinct by blast
  have "snd x = args ! fst x" if "x \<in> set ?c" for x
    using that D(9) [of "fst x" "snd x"] by simp
  then have "map snd ?c = map ((!) args) (map fst ?c)" by simp
  then have "mset (map snd ?c) = image_mset ((!) args) (mset (map fst ?c))"
    by (metis mset_map)
  also have "\<dots> = mset (map ((!) args) [0..<length args])"
    unfolding ids by (rule mset_map [symmetric])
  also have "\<dots> = mset args"
    by (simp only: map_nth)
  finally show "mset (map snd ?c) = mset args" .
qed

text \<open>
  A single caller, scheduled four times, goes through \<open>Log\<close> as the sequential function
  says: the two descriptions of the method agree.
\<close>

lemma single_caller_agrees_with_Log:
  assumes "mtx l = Unlocked" and "Log l keyvals \<sigma> = Some (r, l', \<sigma>')" and "terminated r"
  shows "run [0, 0, 0, 0] (start l \<sigma> [keyvals]) =
           \<lparr>shared = l', sink = \<sigma>', callers = [(keyvals, Exited r)],
            observed = [Enter 0 keyvals, Leave 0]\<rparr>"
proof -
  obtain r0 \<sigma>0 where c: "Logger l keyvals \<sigma> = (r0, \<sigma>0)" by (cases "Logger l keyvals \<sigma>")
  with assms have e: "r0 = r" "\<sigma>0 = \<sigma>'" "l' = l\<lparr>mtx := Unlocked\<rparr>"
    by (auto simp: Log_unlocked)
  have s1: "step 0 (start l \<sigma> [keyvals]) =
      \<lparr>shared = l\<lparr>mtx := Locked\<rparr>, sink = \<sigma>, callers = [(keyvals, AtCall)], observed = []\<rparr>"
    using assms(1) by (simp add: step_def start_def)
  have s2: "step 0 \<lparr>shared = l\<lparr>mtx := Locked\<rparr>, sink = \<sigma>, callers = [(keyvals, AtCall)],
                    observed = []\<rparr> =
      \<lparr>shared = l\<lparr>mtx := Locked\<rparr>, sink = \<sigma>, callers = [(keyvals, InCall)],
       observed = [Enter 0 keyvals]\<rparr>"
    by (simp add: step_def)
  have s3: "step 0 \<lparr>shared = l\<lparr>mtx := Locked\<rparr>, sink = \<sigma>, callers = [(keyvals, InCall)],
                    observed = [Enter 0 keyvals]\<rparr> =
      \<lparr>shared = l\<lparr>mtx := Locked\<rparr>, sink = \<sigma>', callers = [(keyvals, AtUnlock r)],
       observed = [Enter 0 keyvals, Leave 0]\<rparr>"
    using c e assms(3) by (cases r) (simp_all add: step_def terminated_def)
  have s4: "step 0 \<lparr>shared = l\<lparr>mtx := Locked\<rparr>, sink = \<sigma>', callers = [(keyvals, AtUnlock r)],
                    observed = [Enter 0 keyvals, Leave 0]\<rparr> =
      \<lparr>shared = l', sink = \<sigma>', callers = [(keyvals, Exited r)],
       observed = [Enter 0 keyvals, Leave 0]\<rparr>"
    using e by (simp add: step_def)
  show ?thesis
    by (simp add: run_def s1 s2 s3 s4)
qed

lemma concurrent_Logs_lock:
  "Logger (shared (concurrent_Logs lg \<sigma> args schedule)) = lg"
  "i < length args \<Longrightarrow> holds_lock (pc_of (concurrent_Logs lg \<sigma> args schedule) i) \<Longrightarrow>
     mtx (shared (concurrent_Logs lg \<sigma> args schedule)) = Locked"
  "all_exited (concurrent_Logs lg \<sigma> args schedule) \<Longrightarrow>
     mtx (shared (concurrent_Logs lg \<sigma> args schedule)) = Unlocked"
  "i < length args \<Longrightarrow> pc_of (concurrent_Logs lg \<sigma> args schedule) i \<noteq> Fatal"
  "(\<And>j. j < length args \<Longrightarrow> \<not> holds_lock (pc_of (concurrent_Logs lg \<sigma> args schedule) j)) \<Longrightarrow>
     mtx (shared (concurrent_Logs lg \<sigma> args schedule)) = Unlocked"
  "(i, a) \<in> set (calls (observed (concurrent_Logs lg \<sigma> args schedule))) \<Longrightarrow>
     i < length args \<and> a = args ! i"
proof -
  let ?s = "concurrent_Logs lg \<sigma> args schedule"
  note D = invD [OF inv_concurrent_Logs [of lg args \<sigma> schedule]]
  show "Logger (shared ?s) = lg" by (rule D(1))
  show "mtx (shared ?s) = Locked" if "i < length args" "holds_lock (pc_of ?s i)"
    using that D(5) by blast
  show "pc_of ?s i \<noteq> Fatal" if "i < length args"
    using that by (rule D(6))
  show "i < length args \<and> a = args ! i" if "(i, a) \<in> set (calls (observed ?s))"
    using that D(9) [of i a] by simp
  show free: "mtx (shared ?s) = Unlocked"
    if "\<And>j. j < length args \<Longrightarrow> \<not> holds_lock (pc_of ?s j)"
  proof -
    from that D(5) have "mtx (shared ?s) \<noteq> Locked" by blast
    then show ?thesis by (cases "mtx (shared ?s)") simp_all
  qed
  show "mtx (shared ?s) = Unlocked" if "all_exited ?s"
  proof (rule free)
    fix j assume "j < length args"
    then have "has_exited (pc_of ?s j)" using \<open>all_exited ?s\<close> D(3) by (simp add: all_exited_pc)
    then show "\<not> holds_lock (pc_of ?s j)" by (cases "pc_of ?s j") simp_all
  qed
qed

text \<open>Progress: scheduled one by one, all callers get through.\<close>

lemma run_append: "run (xs @ ys) s = run ys (run xs s)"
  by (simp add: run_def)

lemma run_four:
  assumes i: "i < length (callers s)" and at: "callers s ! i = (kv, AtLock)"
    and free: "mtx (shared s) = Unlocked"
    and ret: "terminated (fst (Logger (shared s) kv (sink s)))"
  shows "mtx (shared (run [i, i, i, i] s)) = Unlocked"
    and "Logger (shared (run [i, i, i, i] s)) = Logger (shared s)"
    and "callers (run [i, i, i, i] s) =
           (callers s)[i := (kv, Exited (fst (Logger (shared s) kv (sink s))))]"
proof -
  obtain r \<sigma>' where c: "Logger (shared s) kv (sink s) = (r, \<sigma>')"
    by (cases "Logger (shared s) kv (sink s)")
  have "run [i, i, i, i] s =
      s\<lparr>shared := (shared s)\<lparr>mtx := Unlocked\<rparr>, sink := \<sigma>',
        callers := (callers s)[i := (kv, Exited r)],
        observed := observed s @ [Enter i kv, Leave i]\<rparr>"
    using i at free c ret by (cases r) (simp_all add: run_def step_def terminated_def)
  then show "mtx (shared (run [i, i, i, i] s)) = Unlocked"
    and "Logger (shared (run [i, i, i, i] s)) = Logger (shared s)"
    and "callers (run [i, i, i, i] s) =
           (callers s)[i := (kv, Exited (fst (Logger (shared s) kv (sink s))))]"
    using c by simp_all
qed

lemma one_by_one_progress:
  assumes "always_returns lg" and "k \<le> length args"
  shows "mtx (shared (concurrent_Logs lg \<sigma> args (one_by_one k))) = Unlocked
       \<and> Logger (shared (concurrent_Logs lg \<sigma> args (one_by_one k))) = lg
       \<and> length (callers (concurrent_Logs lg \<sigma> args (one_by_one k))) = length args
       \<and> (\<forall>j<k. has_exited (snd (callers (concurrent_Logs lg \<sigma> args (one_by_one k)) ! j)))
       \<and> (\<forall>j. k \<le> j \<and> j < length args \<longrightarrow>
             callers (concurrent_Logs lg \<sigma> args (one_by_one k)) ! j = (args ! j, AtLock))"
  using assms(2)
proof (induction k)
  case 0
  show ?case
    by (simp add: one_by_one_def concurrent_Logs_def run_def start_def new_serializedLogger_def)
next
  case (Suc k)
  let ?s = "concurrent_Logs lg \<sigma> args (one_by_one k)"
  from Suc have IH: "mtx (shared ?s) = Unlocked" "Logger (shared ?s) = lg"
      "length (callers ?s) = length args"
      "\<And>j. j < k \<Longrightarrow> has_exited (snd (callers ?s ! j))"
      "\<And>j. k \<le> j \<Longrightarrow> j < length args \<Longrightarrow> callers ?s ! j = (args ! j, AtLock)"
    by simp_all
  have e: "concurrent_Logs lg \<sigma> args (one_by_one (Suc k)) = run [k, k, k, k] ?s"
    by (simp add: one_by_one_def concurrent_Logs_def run_append)
  have k: "k < length (callers ?s)" using Suc.prems IH(3) by simp
  have at: "callers ?s ! k = (args ! k, AtLock)" using IH(5) [of k] Suc.prems by simp
  have ret: "terminated (fst (Logger (shared ?s) (args ! k) (sink ?s)))"
    using assms(1) IH(2) by (simp add: always_returns_def)
  note R = run_four [OF k at IH(1) ret]
  show ?case
    unfolding e
  proof (intro conjI allI impI)
    show "mtx (shared (run [k, k, k, k] ?s)) = Unlocked" by (rule R(1))
    show "Logger (shared (run [k, k, k, k] ?s)) = lg" using R(2) IH(2) by simp
    show "length (callers (run [k, k, k, k] ?s)) = length args" using R(3) IH(3) by simp
    show "has_exited (snd (callers (run [k, k, k, k] ?s) ! j))" if "j < Suc k" for j
      using that k IH(4) [of j] by (cases "j = k") (simp_all add: R(3))
    show "callers (run [k, k, k, k] ?s) ! j = (args ! j, AtLock)"
      if "Suc k \<le> j \<and> j < length args" for j
      using that IH(5) [of j] by (simp add: R(3))
  qed
qed

lemma one_by_one_all_exited:
  assumes "always_returns lg"
  shows "all_exited (concurrent_Logs lg \<sigma> args (one_by_one (length args)))"
  using one_by_one_progress [OF assms, of "length args" args \<sigma>]
  by (simp add: all_exited_def list_all_length)

lemma two_callers_run:
  "concurrent_Logs (buffer_sink :: string list list string_Logger) []
       [[''a'', ''1''], [''b'', ''2'']] [0, 1, 0, 0, 1, 0, 1, 1, 1, 1] =
   \<lparr>shared = \<lparr>mtx = Unlocked, Logger = buffer_sink\<rparr>, sink = [[''a'', ''1''], [''b'', ''2'']],
    callers = [([''a'', ''1''], Exited (Returned None)), ([''b'', ''2''], Exited (Returned None))],
    observed = [Enter 0 [''a'', ''1''], Leave 0, Enter 1 [''b'', ''2''], Leave 1]\<rparr>"
  by (simp add: concurrent_Logs_def run_def start_def step_def new_serializedLogger_def
        buffer_sink_def)

section \<open>The claims about serializedLogger\<close>

text \<open>
  Claim C1. \<open>N\<close> goroutines each call \<open>Log\<close> once on one new serializedLogger, with
  arguments \<open>args\<close>, and are scheduled in any order whatever (\<open>schedule\<close> is any list of
  caller numbers, of any length). At every moment the record of what the wrapped Logger
  saw is serialized: a call begins only when no other call is open, so no two calls
  overlap in time; and no caller appears in it twice. Once all the callers are out of
  \<open>Log\<close>, no call is open and the wrapped Logger has seen exactly the \<open>N\<close> calls issued:
  the arguments it received are, as a multiset, the arguments of the callers. When every
  call of the wrapped Logger comes back, the callers can all get out of \<open>Log\<close> (for
  instance one by one).
\<close>

theorem concurrent_Logs_serialized:
  "serialized (observed (concurrent_Logs lg \<sigma> args schedule))
   \<and> distinct (map fst (calls (observed (concurrent_Logs lg \<sigma> args schedule))))
   \<and> (all_exited (concurrent_Logs lg \<sigma> args schedule) \<longrightarrow>
        in_progress None (observed (concurrent_Logs lg \<sigma> args schedule)) = Some None
        \<and> mset (map snd (calls (observed (concurrent_Logs lg \<sigma> args schedule)))) = mset args
        \<and> length (calls (observed (concurrent_Logs lg \<sigma> args schedule))) = length args)
   \<and> (always_returns lg \<longrightarrow>
        all_exited (concurrent_Logs lg \<sigma> args (one_by_one (length args))))"
proof -
  let ?s = "concurrent_Logs lg \<sigma> args schedule"
  have i: "inv lg args ?s" by (rule inv_concurrent_Logs)
  note D = invD [OF i]
  from D(7) have "serialized (observed ?s)" by (auto simp: serialized_def)
  moreover have "in_progress None (observed ?s) = Some None"
      "mset (map snd (calls (observed ?s))) = mset args" if "all_exited ?s"
    using inv_all_exited [OF i that] by simp_all
  moreover have "length (calls (observed ?s)) = length args" if "all_exited ?s"
    using inv_all_exited(2) [OF i that] by (metis length_map size_mset)
  ultimately show ?thesis using D(8) one_by_one_all_exited [of lg \<sigma> args] by blast
qed

theorem concurrent_Logs_serialized_witness:
  "all_exited (concurrent_Logs (buffer_sink :: string list list string_Logger) []
       [[''a'', ''1''], [''b'', ''2'']] [0, 1, 0, 0, 1, 0, 1, 1, 1, 1])
   \<and> always_returns (buffer_sink :: string list list string_Logger)
   \<and> serialized (observed (concurrent_Logs (buffer_sink :: string list list string_Logger) []
       [[''a'', ''1''], [''b'', ''2'']] [0, 1, 0, 0, 1, 0, 1, 1, 1, 1]))
   \<and> length (calls (observed (concurrent_Logs (buffer_sink :: string list list string_Logger) []
       [[''a'', ''1''], [''b'', ''2'']] [0, 1, 0, 0, 1, 0, 1, 1, 1, 1]))) = 2"
  using concurrent_Logs_serialized
          [of "buffer_sink :: string list list string_Logger" "[]"
              "[[''a'', ''1''], [''b'', ''2'']]" "[0, 1, 0, 0, 1, 0, 1, 1, 1, 1]"]
  unfolding two_callers_run
  by (simp add: all_exited_def always_returns_def buffer_sink_def terminated_def)

text \<open>
  Claim C2. A call of \<open>Log\<close> on a serializedLogger whose mutex is free takes the lock,
  calls the wrapped Logger exactly once (the wrapped Logger's record grows by one entry),
  and hands back the wrapped call's outcome \<open>r\<close> and sink state unchanged, whatever \<open>r\<close>
  is: an error \<open>E\<close> comes back as exactly \<open>E\<close>. The mutex is free again after every call
  that came back, by return or by panic. While the mutex is held by someone else the call
  does not get past \<open>Lock\<close>, and the wrapped Logger is not called. Among concurrent
  callers, under any schedule, a caller that is between its \<open>Lock\<close> and its \<open>Unlock\<close>
  (in particular inside the wrapped call) finds the mutex locked.
\<close>

theorem Log_once_result_unchanged:
  fixes l :: "('a, 'e, 'p, 'a list list \<times> 's) serializedLogger"
  assumes "Logger l = spy lg" and "lg keyvals \<sigma> = (r, \<sigma>')"
  shows "(mtx l = Unlocked \<longrightarrow>
            Log l keyvals (tr, \<sigma>) =
              Some (r, l\<lparr>mtx := (if terminated r then Unlocked else Locked)\<rparr>,
                    (tr @ [keyvals], \<sigma>')))
       \<and> (mtx l = Locked \<longrightarrow> Log l keyvals (tr, \<sigma>) = Some (NeverReturns, l, (tr, \<sigma>)))
       \<and> (i < length args \<and> holds_lock (pc_of (concurrent_Logs lg \<sigma> args schedule) i) \<longrightarrow>
            mtx (shared (concurrent_Logs lg \<sigma> args schedule)) = Locked)"
  using assms concurrent_Logs_lock(2) [of i args lg \<sigma> schedule]
  by (simp add: Log_unlocked Log_locked spy_apply)

theorem Log_once_result_unchanged_witness:
  "Log \<lparr>mtx = Unlocked, Logger = spy (failing_sink ''disk full'' :: nat string_Logger)\<rparr>
       [''msg'', ''x''] ([], 0) =
     Some (Returned (Some ''disk full''),
           \<lparr>mtx = Unlocked, Logger = spy (failing_sink ''disk full'')\<rparr>,
           ([[''msg'', ''x'']], 0))
   \<and> Log \<lparr>mtx = Locked, Logger = spy (failing_sink ''disk full'' :: nat string_Logger)\<rparr>
         [''msg'', ''x''] ([], 0) =
     Some (NeverReturns, \<lparr>mtx = Locked, Logger = spy (failing_sink ''disk full'')\<rparr>, ([], 0))
   \<and> holds_lock (pc_of (concurrent_Logs (failing_sink ''disk full'' :: nat string_Logger) 0
         [[''msg'', ''x'']] [0, 0]) 0)
   \<and> mtx (shared (concurrent_Logs (failing_sink ''disk full'' :: nat string_Logger) 0
         [[''msg'', ''x'']] [0, 0])) = Locked"
  using Log_once_result_unchanged
          [where l = "\<lparr>mtx = Unlocked,
                        Logger = spy (failing_sink ''disk full'' :: nat string_Logger)\<rparr>"
             and lg = "failing_sink ''disk full''" and keyvals = "[''msg'', ''x'']"
             and \<sigma> = 0 and r = "Returned (Some ''disk full'')" and \<sigma>' = 0 and tr = "[]"
             and i = 0 and args = "[[''msg'', ''x'']]" and schedule = "[0, 0]"]
        Log_once_result_unchanged
          [where l = "\<lparr>mtx = Locked,
                        Logger = spy (failing_sink ''disk full'' :: nat string_Logger)\<rparr>"
             and lg = "failing_sink ''disk full''" and keyvals = "[''msg'', ''x'']"
             and \<sigma> = 0 and r = "Returned (Some ''disk full'')" and \<sigma>' = 0 and tr = "[]"
             and i = 0 and args = "[[''msg'', ''x'']]" and schedule = "[0, 0]"]
  by (simp add: failing_sink_def terminated_def concurrent_Logs_def run_def start_def step_def
        new_serializedLogger_def pc_of_def)

text \<open>
  Claim C7. A serializedLogger is one mutex and one wrapped Logger and nothing else. As
  constructed, its mutex is unlocked and its Logger is the one given. No call of \<open>Log\<close>
  changes the wrapped Logger. After any sequence of \<open>Log\<close> calls on a new
  serializedLogger the wrapped Logger is still the one given at construction, and when all
  the calls have come back the mutex is unlocked: the lock taken by a call is not held
  beyond that call. The same holds among concurrent callers under any schedule: the
  wrapped Logger of the shared struct stays the one given, and once all callers are out of
  \<open>Log\<close> the mutex is unlocked.
\<close>

theorem serializedLogger_state:
  fixes l :: "('a, 'e, 'p, 's) serializedLogger"
  shows "l = \<lparr>mtx = mtx l, Logger = Logger l\<rparr>
       \<and> mtx (new_serializedLogger lg) = Unlocked
       \<and> Logger (new_serializedLogger lg) = lg
       \<and> (\<forall>r l' \<sigma>'. Log l keyvals \<sigma> = Some (r, l', \<sigma>') \<longrightarrow> Logger l' = Logger l)
       \<and> (\<exists>rs l' \<sigma>'. Logs (new_serializedLogger lg) evs \<sigma> = Some (rs, l', \<sigma>')
              \<and> Logger l' = lg
              \<and> (list_all terminated rs \<longrightarrow> mtx l' = Unlocked \<and> length rs = length evs))
       \<and> Logger (shared (concurrent_Logs lg \<sigma> evs schedule)) = lg
       \<and> (all_exited (concurrent_Logs lg \<sigma> evs schedule) \<longrightarrow>
            mtx (shared (concurrent_Logs lg \<sigma> evs schedule)) = Unlocked)"
proof -
  have "Logger l' = Logger l" if "Log l keyvals \<sigma> = Some (r, l', \<sigma>')" for r l' \<sigma>'
    using that by (cases "mtx l") (auto simp: Log_unlocked Log_locked)
  moreover have "\<exists>rs l' \<sigma>'. Logs (new_serializedLogger lg) evs \<sigma> = Some (rs, l', \<sigma>')
              \<and> Logger l' = lg
              \<and> (list_all terminated rs \<longrightarrow> mtx l' = Unlocked \<and> length rs = length evs)"
    using Logs_invariant [of "new_serializedLogger lg" evs \<sigma>]
    by (simp add: new_serializedLogger_def)
  ultimately show ?thesis
    using concurrent_Logs_lock(1,3) [of lg \<sigma> evs schedule]
    by (simp add: new_serializedLogger_def)
qed

theorem serializedLogger_state_witness:
  "Logs (new_serializedLogger (buffer_sink :: string list list string_Logger))
        [[''a'', ''1''], [''b'', ''2'']] [] =
     Some ([Returned None, Returned None], new_serializedLogger buffer_sink,
           [[''a'', ''1''], [''b'', ''2'']])
   \<and> list_all terminated [Returned None, Returned None :: (string, string) outcome]
   \<and> mtx (new_serializedLogger (buffer_sink :: string list list string_Logger)) = Unlocked
   \<and> all_exited (concurrent_Logs (buffer_sink :: string list list string_Logger) []
        [[''a'', ''1''], [''b'', ''2'']] [0, 1, 0, 0, 1, 0, 1, 1, 1, 1])
   \<and> mtx (shared (concurrent_Logs (buffer_sink :: string list list string_Logger) []
        [[''a'', ''1''], [''b'', ''2'']] [0, 1, 0, 0, 1, 0, 1, 1, 1, 1])) = Unlocked"
  using serializedLogger_state
          [where l = "new_serializedLogger (buffer_sink :: string list list string_Logger)"
             and lg = buffer_sink and keyvals = "[''a'', ''1'']" and \<sigma> = "[]"
             and evs = "[[''a'', ''1''], [''b'', ''2'']]"
             and schedule = "[0, 1, 0, 0, 1, 0, 1, 1, 1, 1]"]
  unfolding two_callers_run
  by (simp add: new_serializedLogger_def buffer_sink_def Log_def terminated_def all_exited_def)

text \<open>
  Claim C9. Whatever the argument list \<open>keyvals\<close> is (empty, of odd length, with
  repeated keys), the entry that the call of \<open>Log\<close> adds to the wrapped Logger's record
  is \<open>keyvals\<close> itself: the same values in the same order, nothing added, removed or
  rewritten, and no other entry. Among concurrent callers, under any schedule, every call
  the wrapped Logger sees carries the argument list of the caller that made it.
\<close>

theorem Log_passes_keyvals:
  fixes l :: "('a, 'e, 'p, 'a list list \<times> 's) serializedLogger"
  assumes "mtx l = Unlocked" and "Logger l = spy lg"
  shows "(\<exists>r l' \<sigma>'. Log l keyvals (tr, \<sigma>) = Some (r, l', (tr @ [keyvals], \<sigma>')))
       \<and> ((i, a) \<in> set (calls (observed (concurrent_Logs lg \<sigma> args schedule))) \<longrightarrow>
            i < length args \<and> a = args ! i)"
  using assms concurrent_Logs_lock(6) [of i a lg \<sigma> args schedule]
  by (simp add: Log_unlocked spy_apply)

theorem Log_passes_keyvals_witness:
  "(\<exists>r l' \<sigma>'. Log (new_serializedLogger (spy (buffer_sink :: string list list string_Logger)))
                 [''terminated'', ''interrupt'', ''terminated''] ([], []) =
     Some (r, l', ([[''terminated'', ''interrupt'', ''terminated'']], \<sigma>')))
   \<and> (1, [''b'', ''2'']) \<in> set (calls (observed
         (concurrent_Logs (buffer_sink :: string list list string_Logger) []
            [[''a'', ''1''], [''b'', ''2'']] [0, 1, 0, 0, 1, 0, 1, 1, 1, 1])))
   \<and> [[''a'', ''1''], [''b'', ''2'']] ! 1 = [''b'', ''2'']"
  using Log_passes_keyvals
          [where l = "new_serializedLogger (spy (buffer_sink :: string list list string_Logger))"
             and lg = buffer_sink
             and keyvals = "[''terminated'', ''interrupt'', ''terminated'']"
             and tr = "[]" and \<sigma> = "[]" and i = 1 and a = "[''b'', ''2'']"
             and args = "[[''a'', ''1''], [''b'', ''2'']]"
             and schedule = "[0, 1, 0, 0, 1, 0, 1, 1, 1, 1]"]
  unfolding two_callers_run
  by (simp add: new_serializedLogger_def)

text \<open>
  The limit of what a deferred \<open>Unlock\<close> can do: while the wrapped call has not come
  back, \<open>Log\<close> has not ended and the mutex is held.
\<close>

lemma Log_hanging:
  "Log (new_serializedLogger hanging_sink) keyvals \<sigma> =
     Some (NeverReturns, \<lparr>mtx = Locked, Logger = hanging_sink\<rparr>, \<sigma>)"
  by (simp add: Log_def new_serializedLogger_def hanging_sink_def)

text \<open>
  Claim C10. \<open>Log\<close> never meets the fatal error of \<open>Unlock\<close>. Whenever \<open>Log\<close> ends, by
  the wrapped call's return or by its panic, the mutex is unlocked after it, so that the
  \<open>Lock\<close> of a later caller succeeds. In particular, when the wrapped Logger panics with
  \<open>p\<close>, \<open>Log\<close> ends with the same panic and the mutex unlocked. Among concurrent
  callers, under any schedule, no caller meets the fatal error, and the mutex is unlocked
  whenever no caller is between its \<open>Lock\<close> and its \<open>Unlock\<close>: no call that has ended
  has left it locked.
\<close>

theorem Log_releases_mutex:
  "Log l keyvals \<sigma> \<noteq> None
   \<and> (\<forall>r l' \<sigma>'. Log l keyvals \<sigma> = Some (r, l', \<sigma>') \<and> terminated r \<longrightarrow>
         mtx l' = Unlocked \<and> Lock (mtx l') = Some Locked)
   \<and> (\<forall>p \<sigma>'. mtx l = Unlocked \<and> Logger l keyvals \<sigma> = (Panicked p, \<sigma>') \<longrightarrow>
         Log l keyvals \<sigma> = Some (Panicked p, l\<lparr>mtx := Unlocked\<rparr>, \<sigma>'))
   \<and> (\<forall>i<length args. pc_of (concurrent_Logs lg \<sigma> args schedule) i \<noteq> Fatal)
   \<and> ((\<forall>i<length args. \<not> holds_lock (pc_of (concurrent_Logs lg \<sigma> args schedule) i)) \<longrightarrow>
         mtx (shared (concurrent_Logs lg \<sigma> args schedule)) = Unlocked)"
proof -
  have "Log l keyvals \<sigma> \<noteq> None
   \<and> (\<forall>r l' \<sigma>'. Log l keyvals \<sigma> = Some (r, l', \<sigma>') \<and> terminated r \<longrightarrow>
         mtx l' = Unlocked \<and> Lock (mtx l') = Some Locked)
   \<and> (\<forall>p \<sigma>'. mtx l = Unlocked \<and> Logger l keyvals \<sigma> = (Panicked p, \<sigma>') \<longrightarrow>
         Log l keyvals \<sigma> = Some (Panicked p, l\<lparr>mtx := Unlocked\<rparr>, \<sigma>'))"
    by (cases "mtx l") (auto simp: Log_unlocked Log_locked terminated_def)
  then show ?thesis
    using concurrent_Logs_lock(4) [of _ args lg \<sigma> schedule]
      concurrent_Logs_lock(5) [of args lg \<sigma> schedule]
    by blast
qed

theorem Log_releases_mutex_witness:
  "Log (new_serializedLogger (panicking_sink ''boom'' :: nat string_Logger)) [''msg'', ''x''] 0 =
     Some (Panicked ''boom'', new_serializedLogger (panicking_sink ''boom''), 0)
   \<and> terminated (Panicked ''boom'' :: (string, string) outcome)
   \<and> mtx (new_serializedLogger (panicking_sink ''boom'' :: nat string_Logger)) = Unlocked
   \<and> pc_of (concurrent_Logs (panicking_sink ''boom'' :: nat string_Logger) 0
        [[''msg'', ''x'']] [0, 0, 0, 0]) 0 = Exited (Panicked ''boom'')
   \<and> mtx (shared (concurrent_Logs (panicking_sink ''boom'' :: nat string_Logger) 0
        [[''msg'', ''x'']] [0, 0, 0, 0])) = Unlocked"
  using Log_releases_mutex
          [where l = "new_serializedLogger (panicking_sink ''boom'' :: nat string_Logger)"
             and keyvals = "[''msg'', ''x'']" and \<sigma> = 0
             and lg = "panicking_sink ''boom''" and args = "[[''msg'', ''x'']]"
             and schedule = "[0, 0, 0, 0]"]
  by (simp add: new_serializedLogger_def panicking_sink_def terminated_def
        concurrent_Logs_def run_def start_def step_def pc_of_def)

section \<open>The level package: order, tagger and filter\<close>

lemma below_Rank: "below a b \<longleftrightarrow> Rank a < Rank b"
  by (cases a; cases b) simp_all

lemma Rank_inject: "Rank a = Rank b \<longleftrightarrow> a = b"
  by (cases a; cases b) simp_all

lemma Compare_Less: "Compare a b = Less \<longleftrightarrow> Rank a < Rank b"
  by (simp add: Compare_def)

lemma Compare_Equal: "Compare a b = Equal \<longleftrightarrow> Rank a = Rank b"
  by (simp add: Compare_def)

lemma Compare_Greater: "Compare a b = Greater \<longleftrightarrow> Rank b < Rank a"
  by (auto simp: Compare_def)

text \<open>
  Claim C8. \<open>Rank\<close> maps \<open>debug\<close>, \<open>info\<close>, \<open>warn\<close>, \<open>error\<close> to 0, 1, 2, 3 and is strictly
  increasing along \<open>debug < info < warn < error\<close>. \<open>Compare\<close> is consistent with that
  order (less exactly below, equal exactly on the same Level, greater exactly above),
  antisymmetric (swapping the arguments swaps less and greater; two Levels neither of which
  is greater than the other are the same) and transitive.
\<close>

theorem Compare_total_order:
  "Rank debug = 0 \<and> Rank info = 1 \<and> Rank warn = 2 \<and> Rank error = 3
   \<and> (\<forall>a b. below a b \<longleftrightarrow> Rank a < Rank b)
   \<and> (\<forall>a b. (Compare a b = Less \<longleftrightarrow> below a b)
           \<and> (Compare a b = Equal \<longleftrightarrow> a = b)
           \<and> (Compare a b = Greater \<longleftrightarrow> below b a))
   \<and> (\<forall>a b. Compare a b = Less \<longleftrightarrow> Compare b a = Greater)
   \<and> (\<forall>a b. Compare a b \<noteq> Greater \<and> Compare b a \<noteq> Greater \<longrightarrow> a = b)
   \<and> (\<forall>a b c. Compare a b = Less \<and> Compare b c = Less \<longrightarrow> Compare a c = Less)
   \<and> (\<forall>a b c. Compare a b \<noteq> Greater \<and> Compare b c \<noteq> Greater \<longrightarrow> Compare a c \<noteq> Greater)"
proof -
  have "a = b" if "Compare a b \<noteq> Greater" "Compare b a \<noteq> Greater" for a b
  proof -
    from that have "Rank a = Rank b" by (simp add: Compare_Greater)
    then show ?thesis by (simp add: Rank_inject)
  qed
  moreover have "Compare a c = Less" if "Compare a b = Less" "Compare b c = Less" for a b c
    using that by (simp add: Compare_Less)
  moreover have "Compare a c \<noteq> Greater"
    if "Compare a b \<noteq> Greater" "Compare b c \<noteq> Greater" for a b c
    using that by (simp add: Compare_Greater)
  moreover have "(Compare a b = Less \<longleftrightarrow> below a b) \<and> (Compare a b = Equal \<longleftrightarrow> a = b)
      \<and> (Compare a b = Greater \<longleftrightarrow> below b a) \<and> (Compare a b = Less \<longleftrightarrow> Compare b a = Greater)"
    for a b
    by (simp add: Compare_Less Compare_Equal Compare_Greater below_Rank Rank_inject)
  ultimately show ?thesis
    by (simp add: below_Rank)
qed

theorem Compare_total_order_witness:
  "Compare debug warn = Less \<and> Compare warn error = Less \<and> Compare debug error = Less
   \<and> Compare error debug = Greater \<and> Compare info info = Equal
   \<and> Compare info warn \<noteq> Greater \<and> Compare warn error \<noteq> Greater
   \<and> Rank debug < Rank info \<and> Rank info < Rank warn \<and> Rank warn < Rank error"
  using Compare_total_order by (simp add: Compare_def)

lemma scan_append: "scan found (xs @ ys) = scan (scan found xs) ys"
  by (induction found xs rule: scan.induct) simp_all

lemma scan_no_key: "levelKey \<notin> fst ` set xs \<Longrightarrow> scan found xs = found"
  by (induction found xs rule: scan.induct) auto

lemma last_severity_final:
  "levelKey \<notin> fst ` set post \<Longrightarrow> last_severity (pre @ (levelKey, v) # post) = Some v"
  by (simp add: last_severity_def scan_append scan_no_key)

lemma last_severity_none:
  "levelKey \<notin> fst ` set event \<Longrightarrow> last_severity event = None"
  by (simp add: last_severity_def scan_no_key)

lemma Filter_Log_spy:
  "Filter_Log (f\<lparr>wrapped := spy lg\<rparr>) event (tr, \<sigma>) =
     (case decide (threshold f) (missing f) event of
        Forward \<Rightarrow> (fst (lg event \<sigma>), (tr @ [event], snd (lg event \<sigma>)))
      | Drop \<Rightarrow> (Returned None, (tr, \<sigma>))
      | Violation \<Rightarrow> (Returned (Some PolicyViolation), (tr, \<sigma>)))"
  by (simp add: Filter_Log_def spy_apply split: Decision.splits)

text \<open>
  Claim C3. Let the last occurrence of the reserved key in the event carry the Level
  \<open>L\<close>: the event is \<open>pre\<close>, then the pair \<open>(levelKey, L)\<close>, then \<open>post\<close> without the
  reserved key; \<open>pre\<close> may hold any number of earlier occurrences, which do not count.
  Then the Filter calls the wrapped Logger, once and with the event as it is, and returns
  its result, if and only if \<open>Rank L >= Rank T\<close> for the threshold \<open>T\<close>; otherwise it
  returns success and the wrapped Logger is not called.
\<close>

theorem Filter_threshold:
  assumes "event = pre @ (levelKey, LevelValue L) # post"
    and "levelKey \<notin> fst ` set post"
  shows "last_severity event = Some (LevelValue L)
       \<and> Filter_Log (f\<lparr>wrapped := spy lg\<rparr>) event (tr, \<sigma>) =
           (if Rank L \<ge> Rank (threshold f)
            then (fst (lg event \<sigma>), (tr @ [event], snd (lg event \<sigma>)))
            else (Returned None, (tr, \<sigma>)))
       \<and> (fst (snd (Filter_Log (f\<lparr>wrapped := spy lg\<rparr>) event (tr, \<sigma>))) = tr @ [event]
            \<longleftrightarrow> Rank L \<ge> Rank (threshold f))"
  using assms by (simp add: Filter_Log_spy decide_def last_severity_final)

theorem Filter_threshold_witness:
  "Filter_Log (NewFilter (spy (buffer_sink :: (string LogEvent, string LogError, string,
        string LogEvent list) Logger)) warn None)
      [(''msg'', Other ''x''), (levelKey, LevelValue info)] ([], []) =
     (Returned None, ([], []))
   \<and> Filter_Log (NewFilter (spy (buffer_sink :: (string LogEvent, string LogError, string,
        string LogEvent list) Logger)) warn None)
      [(levelKey, LevelValue debug), (''msg'', Other ''y''), (levelKey, LevelValue error)]
      ([], []) =
     (Returned None,
      ([[(levelKey, LevelValue debug), (''msg'', Other ''y''), (levelKey, LevelValue error)]],
       [[(levelKey, LevelValue debug), (''msg'', Other ''y''), (levelKey, LevelValue error)]]))"
  using Filter_threshold
          [where event = "[(''msg'', Other ''x''), (levelKey, LevelValue info)]"
             and pre = "[(''msg'', Other ''x'')]" and L = info and post = "[]"
             and f = "NewFilter (spy (buffer_sink :: (string LogEvent, string LogError, string,
                 string LogEvent list) Logger)) warn None"
             and lg = buffer_sink and tr = "[]" and \<sigma> = "[]"]
        Filter_threshold
          [where event = "[(levelKey, LevelValue debug), (''msg'', Other ''y''),
                 (levelKey, LevelValue error)]"
             and pre = "[(levelKey, LevelValue debug), (''msg'', Other ''y'')]"
             and L = error and post = "[]"
             and f = "NewFilter (spy (buffer_sink :: (string LogEvent, string LogError, string,
                 string LogEvent list) Logger)) warn None"
             and lg = buffer_sink and tr = "[]" and \<sigma> = "[]"]
  by (simp add: NewFilter_def buffer_sink_def)

text \<open>
  Claim C4, as stated, fails: under \<open>PassThrough\<close> an event without the reserved key
  goes to the wrapped Logger, and when that Logger fails the Filter returns its error, so
  an error is returned although the policy is not \<open>TreatAsError\<close>.
\<close>

theorem Filter_missing_error_counterexample:
  "levelKey \<notin> fst ` set [(''msg'', Other ''z'' :: string Value)]
   \<and> missing (NewFilter (spy (failing_sink (SinkError ''disk full'') ::
        (string LogEvent, string LogError, string, nat) Logger)) debug (Some PassThrough))
       \<noteq> TreatAsError
   \<and> is_error (fst (Filter_Log
        (NewFilter (spy (failing_sink (SinkError ''disk full'') ::
           (string LogEvent, string LogError, string, nat) Logger)) debug (Some PassThrough))
        [(''msg'', Other ''z'')] ([], 0)))"
  by (simp add: NewFilter_def Filter_Log_def decide_def last_severity_def levelKey_def
        spy_apply failing_sink_def is_error_def)

text \<open>
  Claim C4, amended. For an event without the reserved key: under \<open>PassThrough\<close> the
  Filter calls the wrapped Logger, once and with the event as it is, and returns its
  result, which is an error when the wrapped Logger fails; under \<open>TreatAsError\<close> it
  returns the policy-violation error and the wrapped Logger is not called; under
  \<open>SquelchSilently\<close> it returns success and the wrapped Logger is not called. So the
  event is delivered if and only if the policy is \<open>PassThrough\<close>, and the Filter returns
  the policy-violation error with no call of the wrapped Logger if and only if the policy
  is \<open>TreatAsError\<close>. That error is different from every error of the sink.
\<close>

theorem Filter_missing:
  assumes "levelKey \<notin> fst ` set event"
  shows "Filter_Log (f\<lparr>wrapped := spy lg\<rparr>) event (tr, \<sigma>) =
           (case missing f of
              PassThrough \<Rightarrow> (fst (lg event \<sigma>), (tr @ [event], snd (lg event \<sigma>)))
            | TreatAsError \<Rightarrow> (Returned (Some PolicyViolation), (tr, \<sigma>))
            | SquelchSilently \<Rightarrow> (Returned None, (tr, \<sigma>)))
       \<and> (fst (snd (Filter_Log (f\<lparr>wrapped := spy lg\<rparr>) event (tr, \<sigma>))) = tr @ [event]
            \<longleftrightarrow> missing f = PassThrough)
       \<and> (fst (Filter_Log (f\<lparr>wrapped := spy lg\<rparr>) event (tr, \<sigma>)) =
              Returned (Some PolicyViolation)
            \<and> snd (Filter_Log (f\<lparr>wrapped := spy lg\<rparr>) event (tr, \<sigma>)) = (tr, \<sigma>)
            \<longleftrightarrow> missing f = TreatAsError)
       \<and> (\<forall>E. PolicyViolation \<noteq> SinkError E)"
  using assms
  by (cases "missing f") (simp_all add: Filter_Log_spy decide_def last_severity_none)

theorem Filter_missing_witness:
  "levelKey \<notin> fst ` set [(''msg'', Other ''z'' :: string Value)]
   \<and> Filter_Log (NewFilter (spy (buffer_sink :: (string LogEvent, string LogError, string,
        string LogEvent list) Logger)) debug (Some TreatAsError))
      [(''msg'', Other ''z'')] ([], []) =
     (Returned (Some PolicyViolation), ([], []))"
  using Filter_missing
          [where event = "[(''msg'', Other ''z'' :: string Value)]"
             and f = "NewFilter (spy (buffer_sink :: (string LogEvent, string LogError, string,
                 string LogEvent list) Logger)) debug (Some TreatAsError)"
             and lg = buffer_sink and tr = "[]" and \<sigma> = "[]"]
  by (simp add: NewFilter_def levelKey_def)

text \<open>
  Claim C5, as stated, fails: tagging at \<open>info\<close> an event that already holds a reserved-key
  pair gives an event with two reserved-key pairs, not exactly one.
\<close>

theorem Tag_two_severity_pairs_counterexample:
  "fst (snd (Tag info (spy (buffer_sink :: (string LogEvent, string, string,
        string LogEvent list) Logger)) [(levelKey, LevelValue debug)] ([], []))) =
     [[(levelKey, LevelValue debug), (levelKey, LevelValue info)]]
   \<and> length (severity_pairs [(levelKey, LevelValue debug :: string Value),
        (levelKey, LevelValue info)]) = 2"
  by (simp add: Tag_def spy_apply buffer_sink_def severity_pairs_def)

text \<open>
  Claim C5, amended. \<open>Tag level logger\<close> is a Logger whose \<open>Log(event)\<close> calls the
  wrapped Logger once, with the event extended at its end by the pair
  \<open>(levelKey, level)\<close>, and returns the wrapped Logger's result. The extended event has
  that pair as its last pair, the tagger's level as its last severity, and exactly one
  reserved-key pair more than the input (so exactly one when the input had none). \<open>Debug\<close>,
  \<open>Info\<close>, \<open>Warn\<close> and \<open>Error\<close> are \<open>Tag\<close> of the corresponding level.
\<close>

theorem Tag_appends:
  "Tag level (spy lg) event (tr, \<sigma>) =
     (fst (lg (event @ [(levelKey, LevelValue level)]) \<sigma>),
      (tr @ [event @ [(levelKey, LevelValue level)]],
       snd (lg (event @ [(levelKey, LevelValue level)]) \<sigma>)))
   \<and> last (event @ [(levelKey, LevelValue level)]) = (levelKey, LevelValue level)
   \<and> last_severity (event @ [(levelKey, LevelValue level)]) = Some (LevelValue level)
   \<and> length (severity_pairs (event @ [(levelKey, LevelValue level)])) =
       length (severity_pairs event) + 1
   \<and> Debug logger = Tag debug logger \<and> Info logger = Tag info logger
   \<and> Warn logger = Tag warn logger \<and> Error logger = Tag error logger"
proof -
  have "last_severity (event @ [(levelKey, LevelValue level)]) = Some (LevelValue level)"
    using last_severity_final [of "[]" event "LevelValue level"] by simp
  moreover have "Debug logger = Tag debug logger" "Info logger = Tag info logger"
    "Warn logger = Tag warn logger" "Error logger = Tag error logger"
    by (simp_all add: fun_eq_iff Tag_def Debug_def Info_def Warn_def Error_def)
  ultimately show ?thesis
    by (simp add: Tag_def spy_apply severity_pairs_def)
qed

theorem Tag_appends_witness:
  "Tag info (spy (failing_sink ''disk full'' :: (string LogEvent, string, string, nat) Logger))
     [(''msg'', Other ''x'')] ([], 0) =
     (Returned (Some ''disk full''), ([[(''msg'', Other ''x''), (levelKey, LevelValue info)]], 0))
   \<and> length (severity_pairs [(''msg'', Other ''x'' :: string Value), (levelKey, LevelValue info)])
       = 1"
  using Tag_appends
          [where level = info
             and lg = "failing_sink ''disk full'' :: (string LogEvent, string, string, nat) Logger"
             and event = "[(''msg'', Other ''x'')]" and tr = "[]" and \<sigma> = 0
             and logger = "failing_sink ''disk full'' ::
                 (string LogEvent, string, string, nat) Logger"]
  by (simp add: failing_sink_def severity_pairs_def levelKey_def)

text \<open>
  Claim C6. For every event, the Filter either does not call the wrapped Logger at all
  and leaves the sink as it was (the event is rejected: dropped, or refused as a policy
  violation), or calls it exactly once with the very event it was given and returns that
  call's result (the event is accepted). Which of the two happens is the Filter's
  decision for the event.
\<close>

theorem Filter_frame:
  "Filter_Log (f\<lparr>wrapped := spy lg\<rparr>) event (tr, \<sigma>) =
     (if decide (threshold f) (missing f) event = Forward
      then (fst (lg event \<sigma>), (tr @ [event], snd (lg event \<sigma>)))
      else (if decide (threshold f) (missing f) event = Drop then Returned None
            else Returned (Some PolicyViolation), (tr, \<sigma>)))"
  by (simp add: Filter_Log_spy split: Decision.splits)

theorem Filter_frame_witness:
  "Filter_Log (NewFilter (spy (buffer_sink :: (string LogEvent, string LogError, string,
        string LogEvent list) Logger)) warn None)
      [(''msg'', Other ''y''), (levelKey, LevelValue error)] ([], []) =
     (Returned None,
      ([[(''msg'', Other ''y''), (levelKey, LevelValue error)]],
       [[(''msg'', Other ''y''), (levelKey, LevelValue error)]]))
   \<and> Filter_Log (NewFilter (spy (buffer_sink :: (string LogEvent, string LogError, string,
        string LogEvent list) Logger)) warn None)
      [(''msg'', Other ''x''), (levelKey, LevelValue info)] ([], []) =
     (Returned None, ([], []))"
  using Filter_frame
          [where f = "NewFilter (spy (buffer_sink :: (string LogEvent, string LogError, string,
                 string LogEvent list) Logger)) warn None"
             and lg = buffer_sink
             and event = "[(''msg'', Other ''y''), (levelKey, LevelValue error)]"
             and tr = "[]" and \<sigma> = "[]"]
        Filter_frame
          [where f = "NewFilter (spy (buffer_sink :: (string LogEvent, string LogError, string,
                 string LogEvent list) Logger)) warn None"
             and lg = buffer_sink
             and event = "[(''msg'', Other ''x''), (levelKey, LevelValue info)]"
             and tr = "[]" and \<sigma> = "[]"]
  by (simp add: NewFilter_def buffer_sink_def decide_def last_severity_def levelKey_def)

end
